theory Spec2Isabelle
  imports Main "HOL-Library.Word"
begin

section \<open>The Updatable registry: data model\<close>

text \<open>
  The class \<^verbatim>\<open>Updatable\<close> of \<^verbatim>\<open>src/Updatable.h\<close> keeps three static members
  (\<^verbatim>\<open>registeredInstances\<close>, \<^verbatim>\<open>lastUpdate\<close>, \<^verbatim>\<open>firstCall\<close>) and one field per object
  (\<^verbatim>\<open>debug\<close>). A receiver is identified by its address (\<^verbatim>\<open>this\<close>). The clock
  (\<^verbatim>\<open>unsigned long\<close>, the result type of \<^verbatim>\<open>millis()\<close>) is a word of width \<open>'w\<close>:
  all results hold for every width.
\<close>

type_synonym addr = nat

datatype error =
    OutOfRange  \<comment> \<open>an index outside \<open>[0, size)\<close> reached the container\<close>
  | Dangling    \<comment> \<open>a member was used through the address of no live object\<close>

subsection \<open>The container\<close>

text \<open>
  Modelled from the spec: \<^verbatim>\<open>Vector.h\<close> (class \<^verbatim>\<open>Vector\<close>, used by \<^verbatim>\<open>Updatable.h\<close>
  through \<^verbatim>\<open>PushBack\<close>, \<^verbatim>\<open>Size\<close>, \<^verbatim>\<open>Erase\<close> and \<^verbatim>\<open>operator[]\<close>) is not among the
  sources. The spec's DynamicContainer: append inserts at the end; removeAt is valid only
  for \<open>0 \<le> index < size\<close>, shifts the later elements down by one and signals OutOfRange
  otherwise; indexed access returns the stored element for a valid index and is a
  contract violation otherwise; size is the element count. The container is the sequence
  of its elements at \<open>[0, size)\<close>; capacity and reallocation are storage layout and
  are left out, as is allocation failure.
\<close>

type_synonym 'a Vector = "'a list"

definition PushBack :: "'a Vector \<Rightarrow> 'a \<Rightarrow> 'a Vector" where
  "PushBack v item = v @ [item]"

definition Size :: "'a Vector \<Rightarrow> nat" where
  "Size v = length v"

definition Erase :: "'a Vector \<Rightarrow> nat \<Rightarrow> error + 'a Vector" where
  "Erase v i = (if i < length v then Inr (take i v @ drop (Suc i) v) else Inl OutOfRange)"

definition at_index :: "'a Vector \<Rightarrow> nat \<Rightarrow> error + 'a" where
  "at_index v i = (if i < length v then Inr (v ! i) else Inl OutOfRange)"

subsection \<open>The program state\<close>

text \<open>
  \<open>debug\<close> is the heap of live \<^verbatim>\<open>Updatable\<close> objects: the value of the private field
  \<^verbatim>\<open>debug\<close> of the object at an address, \<open>None\<close> where no object lives. \<open>user\<close> is
  everything else the program owns (the fields of the derived classes, the pins).
\<close>

record (overloaded) ('w, 'u) world =
  registeredInstances :: "addr Vector"
  lastUpdate :: "'w word"
  firstCall :: bool
  debug :: "addr \<rightharpoonup> bool"
  user :: 'u

text \<open>The static initialisers at the end of the header (lines 106 to 108).\<close>

definition initial :: "'u \<Rightarrow> ('w::len, 'u) world" where
  "initial u =
     \<lparr>registeredInstances = [], lastUpdate = 0, firstCall = True,
      debug = Map.empty, user = u\<rparr>"

text \<open>
  \<^verbatim>\<open>update\<close> is virtual: which code runs is decided by the object. The overriders are
  a parameter, a function from the receiver's address and the elapsed value to a state
  transformer. It may change anything, the registry included.
\<close>

type_synonym ('w, 'u) updater = "addr \<Rightarrow> 'w word \<Rightarrow> ('w, 'u) world \<Rightarrow> ('w, 'u) world"

text \<open>The base class's \<^verbatim>\<open>update\<close> (lines 47 to 49) does nothing.\<close>

definition update :: "('w::len, 'u) updater" where
  "update this deltaTime s = s"

text \<open>
  What one dispatch call did: the receivers whose \<^verbatim>\<open>update\<close> it invoked and the
  argument of each invocation, in the order of the invocations.
\<close>

type_synonym 'w trace = "(addr \<times> 'w word) list"

section \<open>Operations\<close>

subsection \<open>Constructor and destructor\<close>

definition Updatable :: "addr \<Rightarrow> ('w::len, 'u) world \<Rightarrow> ('w, 'u) world" where
  "Updatable this s =
     (let s1 = s\<lparr>debug := (debug s)(this \<mapsto> False)\<rparr>
      in s1\<lparr>registeredInstances := PushBack (registeredInstances s1) this\<rparr>)"

text \<open>
  The destructor's loop (lines 38 to 43), from index \<open>i\<close>: the first element equal to
  \<^verbatim>\<open>this\<close> is erased and the loop left.
\<close>

function destructor_loop :: "addr \<Rightarrow> nat \<Rightarrow> addr Vector \<Rightarrow> error + addr Vector" where
  "destructor_loop this i v =
     (if i < Size v then
        (case at_index v i of
           Inl e \<Rightarrow> Inl e
         | Inr p \<Rightarrow> if p = this then Erase v i else destructor_loop this (Suc i) v)
      else Inr v)"
  by pat_completeness auto
termination
  by (relation "measure (\<lambda>(this, i, v). Size v - i)") auto

declare destructor_loop.simps [simp del]

definition destructor :: "addr \<Rightarrow> ('w::len, 'u) world \<Rightarrow> error + ('w, 'u) world" where
  "destructor this s =
     (case destructor_loop this 0 (registeredInstances s) of
        Inl e \<Rightarrow> Inl e
      | Inr v \<Rightarrow> Inr (s\<lparr>registeredInstances := v\<rparr>))"

text \<open>
  The storage of an object is given back once its destructor has returned (the
  \<^verbatim>\<open>delete\<close> expression, the end of a scope): no object lives there any more.
\<close>

definition release :: "addr \<Rightarrow> ('w::len, 'u) world \<Rightarrow> ('w, 'u) world" where
  "release this s = s\<lparr>debug := (debug s)(this := None)\<rparr>"

subsection \<open>Dispatch\<close>

text \<open>
  The loop of both \<^verbatim>\<open>updateAllInstances\<close> (lines 67 to 69 and 75 to 77): \<open>count\<close> was
  read before the loop, the element at \<open>i\<close> is read from the registry as it is when the
  iteration starts, and the virtual call goes through that address. \<open>count\<close> and \<open>i\<close>
  are \<^verbatim>\<open>int\<close> in the source and natural numbers here: a registry with more
  elements than an \<^verbatim>\<open>int\<close> counts does not fit the memory of the targets. Reading outside the
  container and calling through the address of no live object are undefined in the
  source; here they end the call with an error. Every invocation is recorded in the
  trace just before it is made.
\<close>

function update_loop ::
  "('w::len, 'u) updater \<Rightarrow> 'w word \<Rightarrow> nat \<Rightarrow> nat \<Rightarrow> ('w, 'u) world \<times> 'w trace
     \<Rightarrow> error + ('w, 'u) world \<times> 'w trace" where
  "update_loop upd delta i count (s, tr) =
     (if i < count then
        (case at_index (registeredInstances s) i of
           Inl e \<Rightarrow> Inl e
         | Inr p \<Rightarrow>
             (case debug s p of
                None \<Rightarrow> Inl Dangling
              | Some _ \<Rightarrow>
                  update_loop upd delta (Suc i) count (upd p delta s, tr @ [(p, delta)])))
      else Inr (s, tr))"
  by pat_completeness auto
termination
  by (relation "measure (\<lambda>(upd, delta, i, count, st). count - i)") auto

declare update_loop.simps [simp del]

text \<open>\<^verbatim>\<open>updateAllInstances(unsigned long deltaTime)\<close>, lines 73 to 78.\<close>

definition updateAllInstances_delta ::
  "('w::len, 'u) updater \<Rightarrow> 'w word \<Rightarrow> ('w, 'u) world \<Rightarrow> error + ('w, 'u) world \<times> 'w trace" where
  "updateAllInstances_delta upd deltaTime s =
     (let count = Size (registeredInstances s)
      in update_loop upd deltaTime 0 count (s, []))"

text \<open>
  \<^verbatim>\<open>updateAllInstances()\<close>, lines 54 to 70. The reading of \<^verbatim>\<open>millis()\<close> is the
  argument \<open>now\<close>.
\<close>

definition updateAllInstances ::
  "('w::len, 'u) updater \<Rightarrow> 'w word \<Rightarrow> ('w, 'u) world \<Rightarrow> error + ('w, 'u) world \<times> 'w trace" where
  "updateAllInstances upd now s =
     (if firstCall s then
        (let s1 = s\<lparr>firstCall := False\<rparr>;
             s2 = s1\<lparr>lastUpdate := now\<rparr>
         in Inr (s2, []))
      else
        (let delta = now - lastUpdate s;
             s1 = s\<lparr>lastUpdate := now\<rparr>;
             count = Size (registeredInstances s1)
         in update_loop upd delta 0 count (s1, [])))"

subsection \<open>Debug mode\<close>

definition setDebugMode_private :: "addr \<Rightarrow> bool \<Rightarrow> ('w::len, 'u) world \<Rightarrow> error + ('w, 'u) world" where
  "setDebugMode_private this mode s =
     (case debug s this of
        None \<Rightarrow> Inl Dangling
      | Some _ \<Rightarrow> Inr (s\<lparr>debug := (debug s)(this \<mapsto> mode)\<rparr>))"

function setDebugMode_loop ::
  "bool \<Rightarrow> nat \<Rightarrow> nat \<Rightarrow> ('w::len, 'u) world \<Rightarrow> error + ('w, 'u) world" where
  "setDebugMode_loop mode i count s =
     (if i < count then
        (case at_index (registeredInstances s) i of
           Inl e \<Rightarrow> Inl e
         | Inr p \<Rightarrow>
             (case setDebugMode_private p mode s of
                Inl e \<Rightarrow> Inl e
              | Inr s1 \<Rightarrow> setDebugMode_loop mode (Suc i) count s1))
      else Inr s)"
  by pat_completeness auto
termination
  by (relation "measure (\<lambda>(mode, i, count, s). count - i)") auto

declare setDebugMode_loop.simps [simp del]

definition setDebugMode :: "bool \<Rightarrow> ('w::len, 'u) world \<Rightarrow> error + ('w, 'u) world" where
  "setDebugMode mode s =
     (let count = Size (registeredInstances s)
      in setDebugMode_loop mode 0 count s)"

definition debugMode :: "addr \<Rightarrow> ('w::len, 'u) world \<Rightarrow> error + bool" where
  "debugMode this s = (case debug s this of None \<Rightarrow> Inl Dangling | Some b \<Rightarrow> Inr b)"


section \<open>Vocabulary of the properties\<close>

text \<open>
  The receivers' \<^verbatim>\<open>update\<close> functions do not themselves change registry state: the
  registered sequence, the time cursor, the first-call latch and the debug flags are the
  same after any of them as before.
\<close>

definition keeps_registry :: "('w::len, 'u) updater \<Rightarrow> bool" where
  "keeps_registry upd \<longleftrightarrow>
     (\<forall>p d s. registeredInstances (upd p d s) = registeredInstances s \<and>
              lastUpdate (upd p d s) = lastUpdate s \<and>
              firstCall (upd p d s) = firstCall s \<and>
              debug (upd p d s) = debug s)"

text \<open>The weaker condition that they leave the time cursor and the latch alone.\<close>

definition keeps_clock :: "('w::len, 'u) updater \<Rightarrow> bool" where
  "keeps_clock upd \<longleftrightarrow>
     (\<forall>p d s. lastUpdate (upd p d s) = lastUpdate s \<and> firstCall (upd p d s) = firstCall s)"

text \<open>Every registered reference is the address of a live object.\<close>

definition registered_live :: "('w::len, 'u) world \<Rightarrow> bool" where
  "registered_live s \<longleftrightarrow> set (registeredInstances s) \<subseteq> dom (debug s)"

text \<open>The state after the receivers \<open>ps\<close> have been notified with \<open>delta\<close>, one after the other.\<close>

definition notified ::
  "('w::len, 'u) updater \<Rightarrow> 'w word \<Rightarrow> addr list \<Rightarrow> ('w, 'u) world \<Rightarrow> ('w, 'u) world" where
  "notified upd delta ps s = foldl (\<lambda>t p. upd p delta t) s ps"

text \<open>
  How often a receiver was notified in a trace, and the sum of the elapsed values it was
  given (in the clock's width, as a receiver adding them to an \<^verbatim>\<open>unsigned long\<close> does).
\<close>

definition notify_count :: "'w trace \<Rightarrow> addr \<Rightarrow> nat" where
  "notify_count tr p = length (filter (\<lambda>e. fst e = p) tr)"

definition notify_total :: "('w::len) trace \<Rightarrow> addr \<Rightarrow> 'w word" where
  "notify_total tr p = sum_list (map snd (filter (\<lambda>e. fst e = p) tr))"

text \<open>
  The states that constructions and destructions reach from the initial one. An object
  is constructed in storage where no object lives; a destruction runs the destructor and
  then gives the storage back.
\<close>

inductive lifecycle :: "('w::len, 'u) world \<Rightarrow> bool" where
  start: "lifecycle (initial u)"
| construct: "lifecycle s \<Longrightarrow> debug s this = None \<Longrightarrow> lifecycle (Updatable this s)"
| destroy: "lifecycle s \<Longrightarrow> destructor this s = Inr s' \<Longrightarrow> lifecycle (release this s')"

code_pred lifecycle .

text \<open>
  The states reached from the initial one without any call of the auto-timed dispatch:
  by constructions, destructions, explicitly-timed dispatches and \<^verbatim>\<open>setDebugMode\<close>.
\<close>

inductive untimed :: "('w::len, 'u) updater \<Rightarrow> ('w, 'u) world \<Rightarrow> bool" for upd where
  start: "untimed upd (initial u)"
| construct: "untimed upd s \<Longrightarrow> debug s this = None \<Longrightarrow> untimed upd (Updatable this s)"
| destroy: "untimed upd s \<Longrightarrow> destructor this s = Inr s' \<Longrightarrow> untimed upd (release this s')"
| dispatch: "untimed upd s \<Longrightarrow> updateAllInstances_delta upd E s = Inr (s', tr) \<Longrightarrow> untimed upd s'"
| debugging: "untimed upd s \<Longrightarrow> setDebugMode mode s = Inr s' \<Longrightarrow> untimed upd s'"

code_pred untimed .

text \<open>
  An overrider for the examples: it adds the elapsed value to a total kept for its
  receiver, as the blinker of the README does (\<^verbatim>\<open>elapsed += deltaTime\<close>). The example
  states hold two and three such receivers, constructed at the addresses 1, 2 and 3.
\<close>

definition accumulate :: "('w::len, addr \<Rightarrow> 'w word) updater" where
  "accumulate this deltaTime s = s\<lparr>user := (user s)(this := user s this + deltaTime)\<rparr>"

definition two_receivers :: "(32, addr \<Rightarrow> 32 word) world" where
  "two_receivers = Updatable 2 (Updatable 1 (initial (\<lambda>p. 0)))"

definition three_receivers :: "(32, addr \<Rightarrow> 32 word) world" where
  "three_receivers = Updatable 3 two_receivers"

section \<open>The loops\<close>

lemma destructor_loop_absent:
  "this \<notin> set (drop i v) \<Longrightarrow> destructor_loop this i v = Inr v"
proof (induction this i v rule: destructor_loop.induct)
  case (1 this i v)
  show ?case
  proof (cases "i < length v")
    case True
    then have "drop i v = v ! i # drop (Suc i) v"
      by (simp add: Cons_nth_drop_Suc)
    with "1.prems" have ne: "v ! i \<noteq> this" and rest: "this \<notin> set (drop (Suc i) v)"
      by auto
    from True ne "1.IH" [of "v ! i"] rest show ?thesis
      by (subst destructor_loop.simps) (simp add: Size_def at_index_def)
  next
    case False
    then show ?thesis
      by (subst destructor_loop.simps) (simp add: Size_def)
  qed
qed

lemma destructor_loop_found:
  "this \<notin> set (drop i pre) \<Longrightarrow> i \<le> length pre \<Longrightarrow>
   destructor_loop this i (pre @ this # post) = Inr (pre @ post)"
proof (induction "length pre - i" arbitrary: i)
  case 0
  then have i: "i = length pre" by simp
  show ?case
    by (subst destructor_loop.simps) (simp add: i Size_def at_index_def Erase_def)
next
  case (Suc n)
  then have lt: "i < length pre" by simp
  then have "drop i pre = pre ! i # drop (Suc i) pre"
    by (simp add: Cons_nth_drop_Suc)
  with Suc.prems have ne: "pre ! i \<noteq> this" and rest: "this \<notin> set (drop (Suc i) pre)"
    by auto
  from Suc.hyps(2) lt have n: "n = length pre - Suc i" by simp
  from lt have le: "Suc i \<le> length pre" by simp
  have "destructor_loop this (Suc i) (pre @ this # post) = Inr (pre @ post)"
    using Suc.hyps(1) [OF n rest le] .
  with lt ne show ?case
    by (subst destructor_loop.simps) (simp add: Size_def at_index_def nth_append)
qed

lemma update_loop_frame:
  "keeps_registry upd \<Longrightarrow> registered_live s \<Longrightarrow> count = length (registeredInstances s) \<Longrightarrow>
   i \<le> count \<Longrightarrow>
   update_loop upd delta i count (s, tr) =
     Inr (notified upd delta (drop i (registeredInstances s)) s,
          tr @ map (\<lambda>p. (p, delta)) (drop i (registeredInstances s)))"
proof (induction upd delta i count "(s, tr)" arbitrary: s tr rule: update_loop.induct)
  case (1 upd delta i count s tr)
  show ?case
  proof (cases "i < count")
    case False
    with "1.prems" show ?thesis
      by (subst update_loop.simps) (simp add: notified_def)
  next
    case True
    let ?p = "registeredInstances s ! i"
    from True "1.prems" have dr: "drop i (registeredInstances s) = ?p # drop (Suc i) (registeredInstances s)"
      by (simp add: Cons_nth_drop_Suc)
    from True "1.prems" have "?p \<in> set (registeredInstances s)"
      by simp
    with "1.prems"(2) obtain b where b: "debug s ?p = Some b"
      unfolding registered_live_def by blast
    from "1.prems"(1) have k: "registeredInstances (upd ?p delta s) = registeredInstances s"
      "debug (upd ?p delta s) = debug s"
      by (simp_all add: keeps_registry_def)
    have live': "registered_live (upd ?p delta s)"
      using "1.prems"(2) k by (simp add: registered_live_def)
    have IH: "update_loop upd delta (Suc i) count (upd ?p delta s, tr @ [(?p, delta)]) =
      Inr (notified upd delta (drop (Suc i) (registeredInstances s)) (upd ?p delta s),
           (tr @ [(?p, delta)]) @ map (\<lambda>p. (p, delta)) (drop (Suc i) (registeredInstances s)))"
      using "1.hyps" [OF True _ b "1.prems"(1) live'] True "1.prems"(3) k
      by (simp add: at_index_def)
    show ?thesis
      using True "1.prems"(3) b IH
      by (subst update_loop.simps) (simp add: at_index_def dr notified_def)
  qed
qed

lemma notified_fields:
  "keeps_registry upd \<Longrightarrow>
   registeredInstances (notified upd d ps s) = registeredInstances s \<and>
   lastUpdate (notified upd d ps s) = lastUpdate s \<and>
   firstCall (notified upd d ps s) = firstCall s \<and>
   debug (notified upd d ps s) = debug s"
  by (induction ps arbitrary: s) (simp_all add: notified_def keeps_registry_def)

lemma update_loop_clock:
  "keeps_clock upd \<Longrightarrow> update_loop upd delta i count (s, tr) = Inr (s', tr') \<Longrightarrow>
   lastUpdate s' = lastUpdate s \<and> firstCall s' = firstCall s"
proof (induction upd delta i count "(s, tr)" arbitrary: s tr rule: update_loop.induct)
  case (1 upd delta i count s tr)
  show ?case
  proof (cases "i < count")
    case False
    with "1.prems"(2) show ?thesis
      by (subst (asm) update_loop.simps) simp
  next
    case True
    from "1.prems"(2) True obtain p b where p: "at_index (registeredInstances s) i = Inr p"
      and b: "debug s p = Some b"
      and rec: "update_loop upd delta (Suc i) count (upd p delta s, tr @ [(p, delta)]) = Inr (s', tr')"
      by (subst (asm) update_loop.simps) (auto split: sum.splits option.splits)
    from "1.hyps" [OF True p b "1.prems"(1) rec] "1.prems"(1) show ?thesis
      by (simp add: keeps_clock_def)
  qed
qed

lemma update_loop_fields:
  "keeps_registry upd \<Longrightarrow> update_loop upd delta i count (s, tr) = Inr (s', tr') \<Longrightarrow>
   registeredInstances s' = registeredInstances s \<and> lastUpdate s' = lastUpdate s \<and>
   firstCall s' = firstCall s \<and> debug s' = debug s"
proof (induction upd delta i count "(s, tr)" arbitrary: s tr rule: update_loop.induct)
  case (1 upd delta i count s tr)
  show ?case
  proof (cases "i < count")
    case False
    with "1.prems"(2) show ?thesis
      by (subst (asm) update_loop.simps) simp
  next
    case True
    from "1.prems"(2) True obtain p b where p: "at_index (registeredInstances s) i = Inr p"
      and b: "debug s p = Some b"
      and rec: "update_loop upd delta (Suc i) count (upd p delta s, tr @ [(p, delta)]) = Inr (s', tr')"
      by (subst (asm) update_loop.simps) (auto split: sum.splits option.splits)
    from "1.hyps" [OF True p b "1.prems"(1) rec] "1.prems"(1) show ?thesis
      by (simp add: keeps_registry_def)
  qed
qed

lemma filter_fst_map_distinct:
  "distinct ps \<Longrightarrow> p \<in> set ps \<Longrightarrow> filter (\<lambda>e. fst e = p) (map (\<lambda>q. (q, d)) ps) = [(p, d)]"
proof (induction ps)
  case Nil
  then show ?case by simp
next
  case (Cons a ps)
  show ?case
  proof (cases "a = p")
    case True
    with Cons.prems have "p \<notin> set ps" by simp
    then have "filter (\<lambda>e. fst e = p) (map (\<lambda>q. (q, d)) ps) = []"
      by (induction ps) auto
    with True show ?thesis by simp
  next
    case False
    with Cons show ?thesis by simp
  qed
qed

lemma keeps_registry_update: "keeps_registry update"
  by (simp add: keeps_registry_def update_def)

lemma keeps_registry_clock: "keeps_registry upd \<Longrightarrow> keeps_clock upd"
  by (simp add: keeps_registry_def keeps_clock_def)

lemma explicit_dispatch_result:
  "keeps_registry upd \<Longrightarrow> registered_live s \<Longrightarrow>
   updateAllInstances_delta upd E s =
     Inr (notified upd E (registeredInstances s) s, map (\<lambda>p. (p, E)) (registeredInstances s))"
  using update_loop_frame [of upd s "length (registeredInstances s)" 0 E "[]"]
  by (simp add: updateAllInstances_delta_def Size_def)

lemma auto_dispatch_first:
  "firstCall s \<Longrightarrow>
   updateAllInstances upd now s = Inr (s\<lparr>firstCall := False, lastUpdate := now\<rparr>, [])"
  by (simp add: updateAllInstances_def)

lemma auto_dispatch_later:
  assumes "keeps_registry upd" and "registered_live s" and "\<not> firstCall s"
  shows "updateAllInstances upd now s =
     Inr (notified upd (now - lastUpdate s) (registeredInstances s) (s\<lparr>lastUpdate := now\<rparr>),
          map (\<lambda>p. (p, now - lastUpdate s)) (registeredInstances s))"
proof -
  have "registered_live (s\<lparr>lastUpdate := now\<rparr>)"
    using assms(2) by (simp add: registered_live_def)
  from update_loop_frame [OF assms(1) this, of "length (registeredInstances s)" 0 "now - lastUpdate s" "[]"]
  show ?thesis
    using assms(3) by (simp add: updateAllInstances_def Size_def)
qed

lemma auto_dispatch_post:
  assumes "keeps_registry upd" and "registered_live s"
    and "updateAllInstances upd now s = Inr (s', tr)"
  shows "lastUpdate s' = now \<and> \<not> firstCall s' \<and>
         registeredInstances s' = registeredInstances s \<and> debug s' = debug s"
proof (cases "firstCall s")
  case True
  with assms(3) show ?thesis
    by (auto simp: auto_dispatch_first)
next
  case False
  from auto_dispatch_later [OF assms(1,2) False, of now] assms(3)
  have "s' = notified upd (now - lastUpdate s) (registeredInstances s) (s\<lparr>lastUpdate := now\<rparr>)"
    by simp
  with notified_fields [OF assms(1), of "now - lastUpdate s" "registeredInstances s" "s\<lparr>lastUpdate := now\<rparr>"]
    False
  show ?thesis by simp
qed

lemma unat_sub_wrapped:
  fixes current last :: "'w::len word"
  assumes "current < last"
  shows "unat (current - last) = (2 ^ LENGTH('w) - 1 - unat last) + unat current + 1"
proof -
  from assms have lt: "unat current < unat last"
    by (simp add: word_less_nat_alt)
  have b: "unat last < 2 ^ LENGTH('w)"
    by (rule unsigned_less)
  from lt have "unat (current - last) = unat current + 2 ^ LENGTH('w) - unat last"
    by (simp add: unat_sub_if')
  with b lt show ?thesis by arith
qed

lemma unat_sub_plain:
  fixes current last :: "'w::len word"
  assumes "last \<le> current"
  shows "unat (current - last) = unat current - unat last"
  using assms by (simp add: unat_sub)


lemma destructor_loop_remove1:
  "destructor_loop this 0 v = Inr (remove1 this v)"
proof (cases "this \<in> set v")
  case False
  then show ?thesis
    by (simp add: destructor_loop_absent remove1_idem)
next
  case True
  then obtain pre post where v: "v = pre @ this # post" and pre: "this \<notin> set pre"
    by (auto dest: split_list_first)
  then show ?thesis
    by (simp add: destructor_loop_found remove1_append)
qed

lemma destructor_result:
  "destructor this s = Inr (s\<lparr>registeredInstances := remove1 this (registeredInstances s)\<rparr>)"
  by (simp add: destructor_def destructor_loop_remove1)

lemma setDebugMode_loop_fields:
  "setDebugMode_loop mode i count s = Inr s' \<Longrightarrow>
   registeredInstances s' = registeredInstances s \<and> lastUpdate s' = lastUpdate s \<and>
   firstCall s' = firstCall s \<and> user s' = user s"
proof (induction mode i count s rule: setDebugMode_loop.induct)
  case (1 mode i count s)
  show ?case
  proof (cases "i < count")
    case False
    with "1.prems" show ?thesis
      by (subst (asm) setDebugMode_loop.simps) simp
  next
    case True
    from "1.prems" True obtain p s1 where p: "at_index (registeredInstances s) i = Inr p"
      and s1: "setDebugMode_private p mode s = Inr s1"
      and rec: "setDebugMode_loop mode (Suc i) count s1 = Inr s'"
      by (subst (asm) setDebugMode_loop.simps) (auto split: sum.splits)
    from s1 have "registeredInstances s1 = registeredInstances s \<and> lastUpdate s1 = lastUpdate s \<and>
        firstCall s1 = firstCall s \<and> user s1 = user s"
      by (auto simp: setDebugMode_private_def split: option.splits)
    with "1.IH" [OF True p s1 rec] show ?thesis by simp
  qed
qed

lemma setDebugMode_loop_result:
  "registered_live s \<Longrightarrow> count = length (registeredInstances s) \<Longrightarrow> i \<le> count \<Longrightarrow>
   setDebugMode_loop mode i count s =
     Inr (s\<lparr>debug := (\<lambda>a. if a \<in> set (drop i (registeredInstances s)) then Some mode else debug s a)\<rparr>)"
proof (induction mode i count s rule: setDebugMode_loop.induct)
  case (1 mode i count s)
  show ?case
  proof (cases "i < count")
    case False
    with "1.prems" show ?thesis
      by (subst setDebugMode_loop.simps) simp
  next
    case True
    let ?p = "registeredInstances s ! i"
    let ?s1 = "s\<lparr>debug := (debug s)(?p \<mapsto> mode)\<rparr>"
    from True "1.prems" have dr: "drop i (registeredInstances s) = ?p # drop (Suc i) (registeredInstances s)"
      by (simp add: Cons_nth_drop_Suc)
    from True "1.prems" have "?p \<in> set (registeredInstances s)"
      by simp
    with "1.prems"(1) obtain b where b: "debug s ?p = Some b"
      unfolding registered_live_def by blast
    have at: "at_index (registeredInstances s) i = Inr ?p"
      using True "1.prems"(2) by (simp add: at_index_def)
    have s1: "setDebugMode_private ?p mode s = Inr ?s1"
      using b by (simp add: setDebugMode_private_def)
    have live1: "registered_live ?s1"
      using "1.prems"(1) by (auto simp: registered_live_def)
    have "setDebugMode_loop mode (Suc i) count ?s1 =
      Inr (?s1\<lparr>debug := (\<lambda>a. if a \<in> set (drop (Suc i) (registeredInstances ?s1)) then Some mode else debug ?s1 a)\<rparr>)"
      using "1.IH" [OF True at s1 live1] True "1.prems"(2) by simp
    moreover have "(\<lambda>a. if a \<in> set (drop (Suc i) (registeredInstances ?s1)) then Some mode else debug ?s1 a) =
      (\<lambda>a. if a \<in> set (drop i (registeredInstances s)) then Some mode else debug s a)"
      by (rule ext) (simp add: dr)
    ultimately show ?thesis
      using True at s1 by (subst setDebugMode_loop.simps) simp
  qed
qed

lemma setDebugMode_result:
  "registered_live s \<Longrightarrow>
   setDebugMode mode s =
     Inr (s\<lparr>debug := (\<lambda>a. if a \<in> set (registeredInstances s) then Some mode else debug s a)\<rparr>)"
  using setDebugMode_loop_result [of s "length (registeredInstances s)" 0 mode]
  by (simp add: setDebugMode_def Size_def)

lemma untimed_firstCall:
  "untimed upd s \<Longrightarrow> keeps_clock upd \<Longrightarrow> firstCall s"
proof (induction rule: untimed.induct)
  case (start u)
  show ?case by (simp add: initial_def)
next
  case (construct s this)
  then show ?case by (simp add: Updatable_def Let_def)
next
  case (destroy s this s')
  then show ?case by (auto simp: destructor_result release_def)
next
  case (dispatch s E s' tr)
  then show ?case
    using update_loop_clock [of upd E 0 "Size (registeredInstances s)" s "[]" s' tr]
    by (simp add: updateAllInstances_delta_def)
next
  case (debugging s mode s')
  then show ?case
    using setDebugMode_loop_fields [of mode 0 "Size (registeredInstances s)" s s']
    by (simp add: setDebugMode_def)
qed

lemma lifecycle_invariant:
  "lifecycle s \<Longrightarrow> distinct (registeredInstances s) \<and> set (registeredInstances s) = dom (debug s)"
proof (induction rule: lifecycle.induct)
  case (start u)
  show ?case by (simp add: initial_def)
next
  case (construct s this)
  then have "this \<notin> set (registeredInstances s)"
    by (auto simp: dom_def)
  with construct show ?case
    by (auto simp: Updatable_def Let_def PushBack_def)
next
  case (destroy s this s')
  then have s': "s' = s\<lparr>registeredInstances := remove1 this (registeredInstances s)\<rparr>"
    by (simp add: destructor_result)
  from destroy.IH have "set (remove1 this (registeredInstances s)) = dom (debug s) - {this}"
    by (simp add: set_remove1_eq)
  with destroy.IH show ?case
    by (auto simp: s' release_def dom_def split: if_splits)
qed

section \<open>Invariants and the example states\<close>

lemma Updatable_fields:
  "registeredInstances (Updatable this s) = registeredInstances s @ [this]"
  "debug (Updatable this s) = (debug s)(this \<mapsto> False)"
  "lastUpdate (Updatable this s) = lastUpdate s"
  "firstCall (Updatable this s) = firstCall s"
  "user (Updatable this s) = user s"
  by (simp_all add: Updatable_def Let_def PushBack_def)

lemma registered_live_Updatable:
  "registered_live s \<Longrightarrow> registered_live (Updatable this s)"
  by (auto simp: registered_live_def Updatable_fields)

lemma untimed_invariant:
  "untimed upd s \<Longrightarrow> keeps_registry upd \<Longrightarrow>
   distinct (registeredInstances s) \<and> set (registeredInstances s) = dom (debug s)"
proof (induction rule: untimed.induct)
  case (start u)
  show ?case by (simp add: initial_def)
next
  case (construct s this)
  then have "this \<notin> set (registeredInstances s)"
    by (auto simp: dom_def)
  with construct show ?case
    by (auto simp: Updatable_def Let_def PushBack_def)
next
  case (destroy s this s')
  then have s': "s' = s\<lparr>registeredInstances := remove1 this (registeredInstances s)\<rparr>"
    by (simp add: destructor_result)
  from destroy have "set (remove1 this (registeredInstances s)) = dom (debug s) - {this}"
    by (simp add: set_remove1_eq)
  with destroy show ?case
    by (auto simp: s' release_def dom_def split: if_splits)
next
  case (dispatch s E s' tr)
  then have live: "registered_live s"
    by (simp add: registered_live_def)
  from dispatch.hyps(2) explicit_dispatch_result [OF dispatch.prems live, of E]
  have "s' = notified upd E (registeredInstances s) s"
    by simp
  with notified_fields [OF dispatch.prems, of E "registeredInstances s" s] dispatch show ?case
    by simp
next
  case (debugging s mode s')
  then have live: "registered_live s"
    by (simp add: registered_live_def)
  from debugging.hyps(2) setDebugMode_result [OF live, of mode]
  have "s' = s\<lparr>debug := (\<lambda>a. if a \<in> set (registeredInstances s) then Some mode else debug s a)\<rparr>"
    by simp
  with debugging show ?case
    by (auto simp: dom_def split: if_splits)
qed

lemma keeps_registry_accumulate: "keeps_registry accumulate"
  by (simp add: keeps_registry_def accumulate_def)

lemma two_receivers_fields:
  "registeredInstances two_receivers = [1, 2]"
  "debug two_receivers = [1 \<mapsto> False, 2 \<mapsto> False]"
  "firstCall two_receivers"
  "lastUpdate two_receivers = 0"
  "user two_receivers = (\<lambda>p. 0)"
  by (simp_all add: two_receivers_def Updatable_def initial_def Let_def PushBack_def)

lemma registered_live_two_receivers: "registered_live two_receivers"
  by (simp add: registered_live_def two_receivers_fields)

lemma untimed_two_receivers: "untimed upd two_receivers"
proof -
  have "untimed upd (initial (\<lambda>p. 0) :: (32, addr \<Rightarrow> 32 word) world)"
    by (rule untimed.start)
  then have "untimed upd (Updatable 1 (initial (\<lambda>p. 0)) :: (32, addr \<Rightarrow> 32 word) world)"
    by (rule untimed.construct) (simp add: initial_def)
  then have "untimed upd (Updatable 2 (Updatable 1 (initial (\<lambda>p. 0))) :: (32, addr \<Rightarrow> 32 word) world)"
    by (rule untimed.construct) (simp add: initial_def Updatable_def Let_def)
  then show ?thesis by (simp add: two_receivers_def)
qed

lemma three_receivers_fields:
  "registeredInstances three_receivers = [1, 2, 3]"
  "debug three_receivers = [1 \<mapsto> False, 2 \<mapsto> False, 3 \<mapsto> False]"
  "firstCall three_receivers"
  "lastUpdate three_receivers = 0"
  "user three_receivers = (\<lambda>p. 0)"
  by (simp_all add: three_receivers_def two_receivers_fields Updatable_def Let_def PushBack_def)

section \<open>Auto-timed dispatch: the first call and the later ones\<close>

text \<open>
  C1. The auto-timed dispatch, called in a state in which the first-call latch is still
  set, records the clock reading as the time cursor, clears the latch and returns
  without notifying anyone; the latch is set in every state reached without an
  auto-timed dispatch, so this is what the first call ever does. Called with the latch
  cleared, it sets the cursor to the reading and runs the \<^verbatim>\<open>update\<close> of every
  registered receiver, in registration order, with the reading minus the old cursor:
  the state it returns is the one these invocations produce, one after the other, and
  its trace lists exactly them. The second call therefore passes to every receiver the
  difference between its own reading and the reading of the first call. The receivers'
  \<^verbatim>\<open>update\<close> functions are assumed not to change registry state.
\<close>

theorem auto_dispatch_first_then_elapsed:
  assumes "keeps_registry upd"
  shows "(untimed upd s \<longrightarrow> firstCall s \<and> registered_live s) \<and>
         (firstCall s \<longrightarrow>
            updateAllInstances upd t1 s = Inr (s\<lparr>firstCall := False, lastUpdate := t1\<rparr>, [])) \<and>
         (registered_live s \<and> \<not> firstCall s \<longrightarrow>
            updateAllInstances upd t2 s =
              Inr (notified upd (t2 - lastUpdate s) (registeredInstances s) (s\<lparr>lastUpdate := t2\<rparr>),
                   map (\<lambda>p. (p, t2 - lastUpdate s)) (registeredInstances s))) \<and>
         (registered_live s \<and> firstCall s \<longrightarrow>
            updateAllInstances upd t1 s = Inr (s\<lparr>firstCall := False, lastUpdate := t1\<rparr>, []) \<and>
            updateAllInstances upd t2 (s\<lparr>firstCall := False, lastUpdate := t1\<rparr>) =
              Inr (notified upd (t2 - t1) (registeredInstances s)
                     (s\<lparr>firstCall := False, lastUpdate := t2\<rparr>),
                   map (\<lambda>p. (p, t2 - t1)) (registeredInstances s)))"
proof (intro conjI impI)
  assume u: "untimed upd s"
  from untimed_firstCall [OF u keeps_registry_clock [OF assms]]
  show "firstCall s" .
  from untimed_invariant [OF u assms] show "registered_live s"
    by (simp add: registered_live_def)
next
  assume "firstCall s"
  then show "updateAllInstances upd t1 s = Inr (s\<lparr>firstCall := False, lastUpdate := t1\<rparr>, [])"
    by (rule auto_dispatch_first)
next
  assume "registered_live s \<and> \<not> firstCall s"
  then show "updateAllInstances upd t2 s =
      Inr (notified upd (t2 - lastUpdate s) (registeredInstances s) (s\<lparr>lastUpdate := t2\<rparr>),
           map (\<lambda>p. (p, t2 - lastUpdate s)) (registeredInstances s))"
    using auto_dispatch_later [OF assms, of s t2] by simp
next
  assume a: "registered_live s \<and> firstCall s"
  then show "updateAllInstances upd t1 s = Inr (s\<lparr>firstCall := False, lastUpdate := t1\<rparr>, [])"
    by (simp add: auto_dispatch_first)
next
  assume a: "registered_live s \<and> firstCall s"
  let ?s1 = "s\<lparr>firstCall := False, lastUpdate := t1\<rparr>"
  from a have live: "registered_live ?s1"
    by (simp add: registered_live_def)
  have "\<not> firstCall ?s1" by simp
  from auto_dispatch_later [OF assms live this, of t2]
  show "updateAllInstances upd t2 ?s1 =
      Inr (notified upd (t2 - t1) (registeredInstances s) (s\<lparr>firstCall := False, lastUpdate := t2\<rparr>),
           map (\<lambda>p. (p, t2 - t1)) (registeredInstances s))"
    by simp
qed

theorem auto_dispatch_first_then_elapsed_witness:
  "untimed accumulate two_receivers \<and> firstCall two_receivers \<and> registered_live two_receivers \<and>
   updateAllInstances accumulate 1000 two_receivers =
     Inr (two_receivers\<lparr>firstCall := False, lastUpdate := 1000\<rparr>, []) \<and>
   updateAllInstances accumulate 1250 (two_receivers\<lparr>firstCall := False, lastUpdate := 1000\<rparr>) =
     Inr (two_receivers\<lparr>firstCall := False, lastUpdate := 1250,
            user := (\<lambda>p. 0)(1 := 250, 2 := 250)\<rparr>,
          [(1, 250), (2, 250)])"
proof -
  note k = keeps_registry_accumulate [where ?'a = 32]
  note l = registered_live_two_receivers
  note inst = auto_dispatch_first_then_elapsed [OF k, of two_receivers 1000 1250]
  have f: "firstCall two_receivers"
    by (simp add: two_receivers_fields)
  have n: "notified accumulate (1250 - 1000) (registeredInstances two_receivers)
      (two_receivers\<lparr>firstCall := False, lastUpdate := 1250\<rparr>) =
      two_receivers\<lparr>firstCall := False, lastUpdate := 1250, user := (\<lambda>p. 0)(1 := 250, 2 := 250)\<rparr>"
    by (simp add: notified_def accumulate_def two_receivers_fields)
  have m: "map (\<lambda>p. (p, 1250 - 1000 :: 32 word)) (registeredInstances two_receivers) = [(1, 250), (2, 250)]"
    by (simp add: two_receivers_fields)
  from inst l f have second: "updateAllInstances accumulate 1250 (two_receivers\<lparr>firstCall := False, lastUpdate := 1000\<rparr>) =
      Inr (notified accumulate (1250 - 1000) (registeredInstances two_receivers)
             (two_receivers\<lparr>firstCall := False, lastUpdate := 1250\<rparr>),
           map (\<lambda>p. (p, 1250 - 1000)) (registeredInstances two_receivers))"
    by blast
  from inst l f have first: "updateAllInstances accumulate 1000 two_receivers =
     Inr (two_receivers\<lparr>firstCall := False, lastUpdate := 1000\<rparr>, [])"
    by blast
  from second have second': "updateAllInstances accumulate 1250 (two_receivers\<lparr>firstCall := False, lastUpdate := 1000\<rparr>) =
     Inr (two_receivers\<lparr>firstCall := False, lastUpdate := 1250,
            user := (\<lambda>p. 0)(1 := 250, 2 := 250)\<rparr>,
          [(1, 250), (2, 250)])"
    unfolding n m .
  from untimed_two_receivers [of accumulate] f l first second' show ?thesis
    by blast
qed

section \<open>Auto-timed dispatch: the elapsed value wraps with the clock\<close>

text \<open>
  C2. Of two successive auto-timed dispatch calls with the clock readings \<open>last\<close> and
  \<open>current\<close>, the second passes \<open>current - last\<close> to every receiver, the subtraction
  being the one of the clock's own width. Read as a number, that value is
  \<open>(maximum - last) + current + 1\<close> when the clock has wrapped (\<open>current < last\<close>), the
  maximum being \<open>2 ^ LENGTH('w) - 1\<close>, and the plain difference otherwise.
\<close>

theorem auto_dispatch_elapsed_modular:
  fixes last current :: "'w::len word"
  assumes "keeps_registry upd" and "registered_live s0"
    and "updateAllInstances upd last s0 = Inr (s1, tr1)"
  shows "(\<exists>s2. updateAllInstances upd current s1 =
            Inr (s2, map (\<lambda>p. (p, current - last)) (registeredInstances s1)) \<and>
            lastUpdate s2 = current) \<and>
         (current < last \<longrightarrow>
            unat (current - last) = (2 ^ LENGTH('w) - 1 - unat last) + unat current + 1) \<and>
         (last \<le> current \<longrightarrow> unat (current - last) = unat current - unat last)"
proof (intro conjI impI)
  from auto_dispatch_post [OF assms]
  have post: "lastUpdate s1 = last" "\<not> firstCall s1"
    "registeredInstances s1 = registeredInstances s0" "debug s1 = debug s0"
    by simp_all
  with assms(2) have live: "registered_live s1"
    by (simp add: registered_live_def)
  let ?s2 = "notified upd (current - last) (registeredInstances s1) (s1\<lparr>lastUpdate := current\<rparr>)"
  from auto_dispatch_later [OF assms(1) live post(2), of current] post(1)
  have "updateAllInstances upd current s1 =
      Inr (?s2, map (\<lambda>p. (p, current - last)) (registeredInstances s1))"
    by simp
  moreover have "lastUpdate ?s2 = current"
    using notified_fields [OF assms(1), of "current - last" "registeredInstances s1" "s1\<lparr>lastUpdate := current\<rparr>"]
    by simp
  ultimately show "\<exists>s2. updateAllInstances upd current s1 =
            Inr (s2, map (\<lambda>p. (p, current - last)) (registeredInstances s1)) \<and>
            lastUpdate s2 = current"
    by blast
next
  assume "current < last"
  then show "unat (current - last) = (2 ^ LENGTH('w) - 1 - unat last) + unat current + 1"
    by (rule unat_sub_wrapped)
next
  assume "last \<le> current"
  then show "unat (current - last) = unat current - unat last"
    by (rule unat_sub_plain)
qed

theorem auto_dispatch_elapsed_modular_witness:
  "updateAllInstances accumulate 4294967280 two_receivers =
     Inr (two_receivers\<lparr>firstCall := False, lastUpdate := 4294967280\<rparr>, []) \<and>
   (\<exists>s2. updateAllInstances accumulate 16 (two_receivers\<lparr>firstCall := False, lastUpdate := 4294967280\<rparr>) =
     Inr (s2, [(1, 32), (2, 32)]) \<and> lastUpdate s2 = 16) \<and>
   (16 :: 32 word) < 4294967280 \<and>
   unat (16 - 4294967280 :: 32 word) = (2 ^ 32 - 1 - 4294967280) + 16 + 1"
proof -
  let ?s1 = "two_receivers\<lparr>firstCall := False, lastUpdate := 4294967280\<rparr>"
  have first: "updateAllInstances accumulate 4294967280 two_receivers = Inr (?s1, [])"
    by (simp add: auto_dispatch_first two_receivers_fields)
  have lt: "(16 :: 32 word) < 4294967280"
    by simp
  note inst = auto_dispatch_elapsed_modular
    [OF keeps_registry_accumulate registered_live_two_receivers first, of 16]
  from inst obtain s2 where
    s2: "updateAllInstances accumulate 16 ?s1 =
           Inr (s2, map (\<lambda>p. (p, 16 - 4294967280)) (registeredInstances ?s1))"
      "lastUpdate s2 = 16"
    by blast
  have "map (\<lambda>p. (p, 16 - 4294967280 :: 32 word)) (registeredInstances ?s1) = [(1, 32), (2, 32)]"
    by (simp add: two_receivers_fields)
  with s2 have second: "\<exists>s2. updateAllInstances accumulate 16 ?s1 = Inr (s2, [(1, 32), (2, 32)]) \<and>
      lastUpdate s2 = 16"
    by auto
  from inst lt have "unat (16 - 4294967280 :: 32 word) = (2 ^ 32 - 1 - unat (4294967280 :: 32 word)) + unat (16 :: 32 word) + 1"
    by simp
  then have "unat (16 - 4294967280 :: 32 word) = (2 ^ 32 - 1 - 4294967280) + 16 + 1"
    by simp
  with first second lt show ?thesis
    by blast
qed

section \<open>Explicitly-timed dispatch: every receiver once, in order\<close>

text \<open>
  C3. One explicitly-timed dispatch call with the elapsed value \<open>E\<close> (zero included)
  invokes the \<^verbatim>\<open>update\<close> of every registered receiver with the argument \<open>E\<close>, in
  registration order, and invokes nothing else. Where no reference is registered twice,
  every registered receiver is therefore notified exactly once: its notification count
  grows by 1 and the sum of the elapsed values it was given grows by \<open>E\<close>. The
  receivers' \<^verbatim>\<open>update\<close> functions are assumed not to change registry state, and every
  registered reference to be the address of a live object.
\<close>

theorem explicit_dispatch_once_each:
  assumes "keeps_registry upd" and "registered_live s"
  shows "updateAllInstances_delta upd E s =
           Inr (notified upd E (registeredInstances s) s,
                map (\<lambda>p. (p, E)) (registeredInstances s)) \<and>
         (distinct (registeredInstances s) \<longrightarrow>
            (\<forall>p \<in> set (registeredInstances s). \<forall>h.
               notify_count (h @ map (\<lambda>p. (p, E)) (registeredInstances s)) p = notify_count h p + 1 \<and>
               notify_total (h @ map (\<lambda>p. (p, E)) (registeredInstances s)) p = notify_total h p + E))"
proof (intro conjI impI ballI allI)
  show "updateAllInstances_delta upd E s =
           Inr (notified upd E (registeredInstances s) s,
                map (\<lambda>p. (p, E)) (registeredInstances s))"
    using update_loop_frame [OF assms refl, of 0 E "[]"]
    by (simp add: updateAllInstances_delta_def Size_def)
next
  fix p h
  assume "distinct (registeredInstances s)" and "p \<in> set (registeredInstances s)"
  then have f: "filter (\<lambda>e. fst e = p) (map (\<lambda>q. (q, E)) (registeredInstances s)) = [(p, E)]"
    by (rule filter_fst_map_distinct)
  show "notify_count (h @ map (\<lambda>p. (p, E)) (registeredInstances s)) p = notify_count h p + 1"
    by (simp add: notify_count_def f)
  show "notify_total (h @ map (\<lambda>p. (p, E)) (registeredInstances s)) p = notify_total h p + E"
    by (simp add: notify_total_def f)
qed

theorem explicit_dispatch_once_each_witness:
  "updateAllInstances_delta accumulate 0 two_receivers = Inr (two_receivers, [(1, 0), (2, 0)]) \<and>
   (\<exists>s'. updateAllInstances_delta accumulate 50 two_receivers = Inr (s', [(1, 50), (2, 50)]) \<and>
      user s' 1 = 50 \<and> user s' 2 = 50) \<and>
   notify_count ([(1, 75), (2, 75)] @ map (\<lambda>p. (p, 50 :: 32 word)) [1, 2]) 1 =
     notify_count [(1, 75), (2, 75 :: 32 word)] 1 + 1 \<and>
   notify_total ([(1, 75), (2, 75)] @ map (\<lambda>p. (p, 50 :: 32 word)) [1, 2]) 1 =
     notify_total [(1, 75), (2, 75 :: 32 word)] 1 + 50"
proof -
  note k = keeps_registry_accumulate [where ?'a = 32]
  note l = registered_live_two_receivers
  have d: "distinct (registeredInstances two_receivers)"
    by (simp add: two_receivers_fields)
  have m: "(1 :: nat) \<in> set (registeredInstances two_receivers)"
    by (simp add: two_receivers_fields)
  have z: "notified accumulate 0 [1, 2] two_receivers = two_receivers"
    by (simp add: notified_def accumulate_def)
  have u: "user (notified accumulate 50 [1, 2] two_receivers) 1 = 50"
    "user (notified accumulate 50 [1, 2] two_receivers) 2 = 50"
    by (simp_all add: notified_def accumulate_def two_receivers_fields)
  from explicit_dispatch_once_each [OF k l, of 0] z
  have c0: "updateAllInstances_delta accumulate 0 two_receivers = Inr (two_receivers, [(1, 0), (2, 0)])"
    by (simp add: two_receivers_fields)
  from explicit_dispatch_once_each [OF k l, of 50] u
  have c50: "\<exists>s'. updateAllInstances_delta accumulate 50 two_receivers = Inr (s', [(1, 50), (2, 50)]) \<and>
      user s' 1 = 50 \<and> user s' 2 = 50"
    by (simp add: two_receivers_fields)
  from explicit_dispatch_once_each [OF k l, of 50, THEN conjunct2, rule_format, OF d m, of "[(1, 75), (2, 75)]"]
  have cn: "notify_count ([(1, 75), (2, 75)] @ map (\<lambda>p. (p, 50 :: 32 word)) [1, 2]) 1 =
     notify_count [(1, 75), (2, 75 :: 32 word)] 1 + 1 \<and>
   notify_total ([(1, 75), (2, 75)] @ map (\<lambda>p. (p, 50 :: 32 word)) [1, 2]) 1 =
     notify_total [(1, 75), (2, 75 :: 32 word)] 1 + 50"
    by (simp add: two_receivers_fields)
  from c0 c50 cn show ?thesis by blast
qed

section \<open>Explicitly-timed dispatch leaves the clock alone\<close>

text \<open>
  C4. The explicitly-timed dispatch call does not modify the time cursor
  \<^verbatim>\<open>lastUpdate\<close> or the first-call latch \<^verbatim>\<open>firstCall\<close>: whenever the call returns,
  both fields are what they were before it, for every state and every elapsed value,
  provided no receiver's \<^verbatim>\<open>update\<close> changes them itself. The call does return when the
  receivers leave the registry alone and every registered reference is live.
\<close>

theorem explicit_dispatch_keeps_clock:
  assumes "keeps_clock upd"
  shows "(\<forall>s' tr. updateAllInstances_delta upd E s = Inr (s', tr) \<longrightarrow>
      lastUpdate s' = lastUpdate s \<and> firstCall s' = firstCall s) \<and>
   (keeps_registry upd \<and> registered_live s \<longrightarrow>
      (\<exists>s' tr. updateAllInstances_delta upd E s = Inr (s', tr)))"
proof (rule conjI)
  show "\<forall>s' tr. updateAllInstances_delta upd E s = Inr (s', tr) \<longrightarrow>
      lastUpdate s' = lastUpdate s \<and> firstCall s' = firstCall s"
  proof (intro allI impI)
    fix s' tr
    assume "updateAllInstances_delta upd E s = Inr (s', tr)"
    with assms show "lastUpdate s' = lastUpdate s \<and> firstCall s' = firstCall s"
      using update_loop_clock [of upd E 0 "Size (registeredInstances s)" s "[]" s' tr]
      by (simp add: updateAllInstances_delta_def)
  qed
  show "keeps_registry upd \<and> registered_live s \<longrightarrow>
      (\<exists>s' tr. updateAllInstances_delta upd E s = Inr (s', tr))"
    by (simp add: explicit_dispatch_result)
qed

theorem explicit_dispatch_keeps_clock_witness:
  "keeps_clock (accumulate :: (32, addr \<Rightarrow> 32 word) updater) \<and>
   keeps_registry (accumulate :: (32, addr \<Rightarrow> 32 word) updater) \<and>
   registered_live two_receivers \<and>
   (\<exists>s' tr. updateAllInstances_delta accumulate 50 two_receivers = Inr (s', tr) \<and>
      lastUpdate s' = lastUpdate two_receivers \<and> firstCall s' = firstCall two_receivers)"
proof -
  note k = keeps_registry_accumulate [where ?'a = 32]
  note c = keeps_registry_clock [OF k]
  note l = registered_live_two_receivers
  from explicit_dispatch_keeps_clock [OF c, of 50 two_receivers] c k l
  show ?thesis by blast
qed

section \<open>The registry across constructions and destructions\<close>

text \<open>
  C5. In every state that constructions and destructions reach from the initial empty
  state, no reference appears twice in the registered sequence, and the registered
  references are exactly the addresses of the live receivers, so that none refers to a
  destroyed one. The destructor of any receiver runs to completion there, and after it
  the sequence holds no reference to that receiver.
\<close>

theorem lifecycle_registry_invariant:
  assumes "lifecycle s"
  shows "distinct (registeredInstances s) \<and>
         set (registeredInstances s) = dom (debug s) \<and>
         (\<forall>this. \<exists>s'. destructor this s = Inr s' \<and>
            this \<notin> set (registeredInstances s') \<and>
            this \<notin> set (registeredInstances (release this s')) \<and>
            lifecycle (release this s'))"
proof (intro conjI allI)
  from lifecycle_invariant [OF assms]
  show d: "distinct (registeredInstances s)"
    and "set (registeredInstances s) = dom (debug s)"
    by simp_all
  fix this
  let ?s' = "s\<lparr>registeredInstances := remove1 this (registeredInstances s)\<rparr>"
  have r: "destructor this s = Inr ?s'"
    by (rule destructor_result)
  moreover from d have "this \<notin> set (registeredInstances ?s')"
    by simp
  moreover from d have "this \<notin> set (registeredInstances (release this ?s'))"
    by (simp add: release_def)
  moreover have "lifecycle (release this ?s')"
    using assms r by (rule lifecycle.destroy)
  ultimately show "\<exists>s'. destructor this s = Inr s' \<and>
            this \<notin> set (registeredInstances s') \<and>
            this \<notin> set (registeredInstances (release this s')) \<and>
            lifecycle (release this s')"
    by blast
qed

theorem lifecycle_registry_invariant_witness:
  "lifecycle two_receivers \<and>
   distinct (registeredInstances two_receivers) \<and>
   set (registeredInstances two_receivers) = dom (debug two_receivers) \<and>
   (\<exists>s'. destructor 1 two_receivers = Inr s' \<and> registeredInstances (release 1 s') = [2] \<and>
      lifecycle (release 1 s'))"
proof -
  have "lifecycle (initial (\<lambda>p. 0) :: (32, addr \<Rightarrow> 32 word) world)"
    by (rule lifecycle.start)
  then have "lifecycle (Updatable 1 (initial (\<lambda>p. 0)) :: (32, addr \<Rightarrow> 32 word) world)"
    by (rule lifecycle.construct) (simp add: initial_def)
  then have "lifecycle (Updatable 2 (Updatable 1 (initial (\<lambda>p. 0))) :: (32, addr \<Rightarrow> 32 word) world)"
    by (rule lifecycle.construct) (simp add: initial_def Updatable_def Let_def)
  then have l: "lifecycle two_receivers"
    by (simp add: two_receivers_def)
  note inv = lifecycle_registry_invariant [OF l]
  from inv obtain s' where s': "destructor 1 two_receivers = Inr s'" "lifecycle (release 1 s')"
    by blast
  have "destructor 1 two_receivers = Inr (two_receivers\<lparr>registeredInstances := [2]\<rparr>)"
    by (simp add: destructor_result two_receivers_fields)
  with s' have "registeredInstances (release 1 s') = [2]"
    by (simp add: release_def)
  with l inv s' show ?thesis by blast
qed

section \<open>Deregistration\<close>

text \<open>
  C6. The destructor removes the first reference in the registered sequence that equals
  the receiver being destroyed and leaves every other element where it was, in order.
  When no element equals it (a second destruction of the same receiver, for one), the
  destructor returns normally and the whole state is the one it started in.
\<close>

theorem destructor_removes_first:
  "(this \<notin> set (registeredInstances s) \<longrightarrow> destructor this s = Inr s) \<and>
   (\<forall>pre post. registeredInstances s = pre @ this # post \<and> this \<notin> set pre \<longrightarrow>
      destructor this s = Inr (s\<lparr>registeredInstances := pre @ post\<rparr>))"
proof (intro conjI impI allI)
  assume "this \<notin> set (registeredInstances s)"
  then have "destructor_loop this 0 (registeredInstances s) = Inr (registeredInstances s)"
    by (simp add: destructor_loop_absent)
  then show "destructor this s = Inr s"
    by (simp add: destructor_def)
next
  fix pre post
  assume "registeredInstances s = pre @ this # post \<and> this \<notin> set pre"
  then have "destructor_loop this 0 (registeredInstances s) = Inr (pre @ post)"
    by (simp add: destructor_loop_found)
  then show "destructor this s = Inr (s\<lparr>registeredInstances := pre @ post\<rparr>)"
    by (simp add: destructor_def)
qed

theorem destructor_removes_first_witness:
  "destructor 3 ((initial () :: (32, unit) world)\<lparr>registeredInstances := [5, 3, 7, 3]\<rparr>) =
     Inr ((initial ())\<lparr>registeredInstances := [5, 7, 3]\<rparr>) \<and>
   destructor 9 ((initial () :: (32, unit) world)\<lparr>registeredInstances := [5, 3, 7, 3]\<rparr>) =
     Inr ((initial ())\<lparr>registeredInstances := [5, 3, 7, 3]\<rparr>)"
  using destructor_removes_first [of 9 "(initial () :: (32, unit) world)\<lparr>registeredInstances := [5, 3, 7, 3]\<rparr>"]
    destructor_removes_first [of 3 "(initial () :: (32, unit) world)\<lparr>registeredInstances := [5, 3, 7, 3]\<rparr>",
      THEN conjunct2, THEN spec, THEN spec, of "[5]" "[7, 3]"]
  by simp

section \<open>Dispatch over an empty registry\<close>

text \<open>
  C7 (as amended). When no receiver is registered, a dispatch call notifies no one. The
  explicitly-timed call leaves the whole state unchanged. The auto-timed call leaves the
  registered sequence, the debug flags and the user state unchanged, and still records
  the clock reading in the time cursor and clears the first-call latch.
\<close>

theorem empty_registry_dispatch:
  assumes "registeredInstances s = []"
  shows "updateAllInstances_delta upd E s = Inr (s, []) \<and>
         updateAllInstances upd now s = Inr (s\<lparr>firstCall := False, lastUpdate := now\<rparr>, [])"
proof
  show "updateAllInstances_delta upd E s = Inr (s, [])"
    using assms by (simp add: updateAllInstances_delta_def Size_def update_loop.simps)
  show "updateAllInstances upd now s = Inr (s\<lparr>firstCall := False, lastUpdate := now\<rparr>, [])"
  proof (cases "firstCall s")
    case True
    then show ?thesis by (simp add: updateAllInstances_def)
  next
    case False
    then have "s\<lparr>lastUpdate := now\<rparr> = s\<lparr>firstCall := False, lastUpdate := now\<rparr>"
      by (intro world.equality) simp_all
    with False assms show ?thesis
      by (simp add: updateAllInstances_def Size_def update_loop.simps)
  qed
qed

theorem empty_registry_dispatch_witness:
  "registeredInstances (initial (\<lambda>p. 0) :: (32, addr \<Rightarrow> 32 word) world) = [] \<and>
   updateAllInstances_delta accumulate 50 (initial (\<lambda>p. 0) :: (32, addr \<Rightarrow> 32 word) world) =
     Inr (initial (\<lambda>p. 0), []) \<and>
   updateAllInstances accumulate 1000 (initial (\<lambda>p. 0) :: (32, addr \<Rightarrow> 32 word) world) =
     Inr ((initial (\<lambda>p. 0))\<lparr>firstCall := False, lastUpdate := 1000\<rparr>, [])"
proof -
  have e: "registeredInstances (initial (\<lambda>p. 0) :: (32, addr \<Rightarrow> 32 word) world) = []"
    by (simp add: initial_def)
  from empty_registry_dispatch [OF e, of accumulate 50 1000] e show ?thesis
    by blast
qed

text \<open>
  C7 as stated fails: the auto-timed call over the empty initial registry returns a state
  that differs from the one it started in.
\<close>

theorem empty_registry_auto_dispatch_changes_state:
  "registeredInstances (initial () :: (32, unit) world) = [] \<and>
   updateAllInstances update 5 (initial () :: (32, unit) world) =
     Inr ((initial ())\<lparr>firstCall := False, lastUpdate := 5\<rparr>, []) \<and>
   (initial () :: (32, unit) world)\<lparr>firstCall := False, lastUpdate := 5\<rparr> \<noteq> initial ()"
proof -
  have "firstCall ((initial () :: (32, unit) world)\<lparr>firstCall := False, lastUpdate := 5\<rparr>) \<noteq>
      firstCall (initial () :: (32, unit) world)"
    by (simp add: initial_def)
  then have "(initial () :: (32, unit) world)\<lparr>firstCall := False, lastUpdate := 5\<rparr> \<noteq> initial ()"
    by metis
  then show ?thesis
    by (simp add: updateAllInstances_def initial_def)
qed

section \<open>Dispatch after a destruction\<close>

text \<open>
  C8. Of \<open>N\<close> registered receivers, none registered twice, one is destroyed: its
  destructor runs to completion and its storage is given back. The registered sequence
  is then the old one without that receiver, the others in their old order (those
  behind it one place further to the front), \<open>N - 1\<close> in number. A following dispatch
  call, explicitly-timed or auto-timed, returns normally, and the state it returns is
  the one that the \<^verbatim>\<open>update\<close> invocations of exactly these receivers produce, in that
  order; the destroyed one is never invoked.
\<close>

theorem dispatch_after_destruction:
  assumes "keeps_registry upd" and "registered_live s"
    and "distinct (registeredInstances s)"
    and "registeredInstances s = pre @ this # post"
  shows "destructor this s = Inr (s\<lparr>registeredInstances := pre @ post\<rparr>) \<and>
         length (pre @ post) = length (registeredInstances s) - 1 \<and>
         this \<notin> set (pre @ post) \<and>
         release this (s\<lparr>registeredInstances := pre @ post\<rparr>) =
           s\<lparr>registeredInstances := pre @ post, debug := (debug s)(this := None)\<rparr> \<and>
         updateAllInstances_delta upd E (release this (s\<lparr>registeredInstances := pre @ post\<rparr>)) =
           Inr (notified upd E (pre @ post) (release this (s\<lparr>registeredInstances := pre @ post\<rparr>)),
                map (\<lambda>p. (p, E)) (pre @ post)) \<and>
         (\<not> firstCall s \<longrightarrow>
            updateAllInstances upd now (release this (s\<lparr>registeredInstances := pre @ post\<rparr>)) =
              Inr (notified upd (now - lastUpdate s) (pre @ post)
                     ((release this (s\<lparr>registeredInstances := pre @ post\<rparr>))\<lparr>lastUpdate := now\<rparr>),
                   map (\<lambda>p. (p, now - lastUpdate s)) (pre @ post)))"
proof -
  let ?s1 = "s\<lparr>registeredInstances := pre @ post\<rparr>"
  let ?r = "release this ?s1"
  from assms(3,4) have notin: "this \<notin> set pre" "this \<notin> set post"
    by simp_all
  then have "destructor_loop this 0 (registeredInstances s) = Inr (pre @ post)"
    by (simp add: assms(4) destructor_loop_found)
  then have dtor: "destructor this s = Inr ?s1"
    by (simp add: destructor_def)
  have regs: "registeredInstances ?r = pre @ post"
    by (simp add: release_def)
  have rel: "?r = s\<lparr>registeredInstances := pre @ post, debug := (debug s)(this := None)\<rparr>"
    by (simp add: release_def)
  have live: "registered_live ?r"
    using assms(2,4) notin by (auto simp: registered_live_def release_def)
  have len: "length (pre @ post) = length (registeredInstances s) - 1"
    by (simp add: assms(4))
  have ex: "updateAllInstances_delta upd E ?r =
      Inr (notified upd E (pre @ post) ?r, map (\<lambda>p. (p, E)) (pre @ post))"
    using explicit_dispatch_result [OF assms(1) live, of E] by (simp only: regs)
  have au: "\<not> firstCall s \<longrightarrow>
      updateAllInstances upd now ?r =
        Inr (notified upd (now - lastUpdate s) (pre @ post) (?r\<lparr>lastUpdate := now\<rparr>),
             map (\<lambda>p. (p, now - lastUpdate s)) (pre @ post))"
  proof
    assume "\<not> firstCall s"
    then have nf: "\<not> firstCall ?r" by (simp add: release_def)
    have lu: "lastUpdate ?r = lastUpdate s" by (simp add: release_def)
    from auto_dispatch_later [OF assms(1) live nf, of now]
    show "updateAllInstances upd now ?r =
        Inr (notified upd (now - lastUpdate s) (pre @ post) (?r\<lparr>lastUpdate := now\<rparr>),
             map (\<lambda>p. (p, now - lastUpdate s)) (pre @ post))"
      by (simp only: regs lu)
  qed
  from notin have ni: "this \<notin> set (pre @ post)" by simp
  from dtor len ni rel ex au show ?thesis
    by (intro conjI)
qed

theorem dispatch_after_destruction_witness:
  "keeps_registry (accumulate :: (32, addr \<Rightarrow> 32 word) updater) \<and>
   registered_live (three_receivers\<lparr>firstCall := False, lastUpdate := 1000\<rparr>) \<and>
   distinct (registeredInstances (three_receivers\<lparr>firstCall := False, lastUpdate := 1000\<rparr>)) \<and>
   registeredInstances (three_receivers\<lparr>firstCall := False, lastUpdate := 1000\<rparr>) = [1] @ 2 # [3] \<and>
   destructor 2 (three_receivers\<lparr>firstCall := False, lastUpdate := 1000\<rparr>) =
     Inr (three_receivers\<lparr>firstCall := False, lastUpdate := 1000, registeredInstances := [1, 3]\<rparr>) \<and>
   updateAllInstances_delta accumulate 50
       (release 2 (three_receivers\<lparr>firstCall := False, lastUpdate := 1000, registeredInstances := [1, 3]\<rparr>)) =
     Inr (three_receivers\<lparr>firstCall := False, lastUpdate := 1000, registeredInstances := [1, 3],
            debug := [1 \<mapsto> False, 3 \<mapsto> False], user := (\<lambda>p. 0)(1 := 50, 3 := 50)\<rparr>,
          [(1, 50), (3, 50)]) \<and>
   updateAllInstances accumulate 1250
       (release 2 (three_receivers\<lparr>firstCall := False, lastUpdate := 1000, registeredInstances := [1, 3]\<rparr>)) =
     Inr (three_receivers\<lparr>firstCall := False, lastUpdate := 1250, registeredInstances := [1, 3],
            debug := [1 \<mapsto> False, 3 \<mapsto> False], user := (\<lambda>p. 0)(1 := 250, 3 := 250)\<rparr>,
          [(1, 250), (3, 250)])"
proof -
  let ?s = "three_receivers\<lparr>firstCall := False, lastUpdate := 1000\<rparr>"
  let ?r = "release 2 (three_receivers\<lparr>firstCall := False, lastUpdate := 1000, registeredInstances := [1, 3]\<rparr>)"
  note k = keeps_registry_accumulate [where ?'a = 32]
  have l: "registered_live ?s"
    by (simp add: registered_live_def three_receivers_fields)
  have d: "distinct (registeredInstances ?s)"
    by (simp add: three_receivers_fields)
  have r: "registeredInstances ?s = [1] @ 2 # [3]"
    by (simp add: three_receivers_fields)
  have nf: "\<not> firstCall ?s" by simp
  note inst = dispatch_after_destruction [OF k l d r, of 50 1250]
  have dm: "(debug three_receivers)(2 := None) = [1 \<mapsto> False, 3 \<mapsto> False]"
    by (rule ext) (simp add: three_receivers_fields)
  have n1: "notified accumulate 50 ([1] @ [3]) ?r =
      three_receivers\<lparr>firstCall := False, lastUpdate := 1000, registeredInstances := [1, 3],
            debug := [1 \<mapsto> False, 3 \<mapsto> False], user := (\<lambda>p. 0)(1 := 50, 3 := 50)\<rparr>"
    by (simp add: notified_def accumulate_def release_def three_receivers_fields dm)
  have n2: "notified accumulate (1250 - lastUpdate ?s) ([1] @ [3]) (?r\<lparr>lastUpdate := 1250\<rparr>) =
      three_receivers\<lparr>firstCall := False, lastUpdate := 1250, registeredInstances := [1, 3],
            debug := [1 \<mapsto> False, 3 \<mapsto> False], user := (\<lambda>p. 0)(1 := 250, 3 := 250)\<rparr>"
    by (simp add: notified_def accumulate_def release_def three_receivers_fields dm)
  have rr: "release 2 (?s\<lparr>registeredInstances := [1] @ [3]\<rparr>) = ?r"
    by simp
  have m1: "map (\<lambda>p. (p, 50 :: 32 word)) ([1] @ [3]) = [(1, 50), (3, 50)]"
    by simp
  have m2: "map (\<lambda>p. (p, 1250 - lastUpdate ?s)) ([1] @ [3]) = [(1, 250), (3, 250)]"
    by simp
  from inst have "destructor 2 ?s = Inr (?s\<lparr>registeredInstances := [1] @ [3]\<rparr>)"
    by blast
  then have c1: "destructor 2 ?s =
      Inr (three_receivers\<lparr>firstCall := False, lastUpdate := 1000, registeredInstances := [1, 3]\<rparr>)"
    by simp
  from inst have "updateAllInstances_delta accumulate 50 (release 2 (?s\<lparr>registeredInstances := [1] @ [3]\<rparr>)) =
      Inr (notified accumulate 50 ([1] @ [3]) (release 2 (?s\<lparr>registeredInstances := [1] @ [3]\<rparr>)),
           map (\<lambda>p. (p, 50)) ([1] @ [3]))"
    by blast
  then have c2: "updateAllInstances_delta accumulate 50 ?r =
      Inr (three_receivers\<lparr>firstCall := False, lastUpdate := 1000, registeredInstances := [1, 3],
            debug := [1 \<mapsto> False, 3 \<mapsto> False], user := (\<lambda>p. 0)(1 := 50, 3 := 50)\<rparr>,
          [(1, 50), (3, 50)])"
    unfolding rr n1 m1 .
  from inst nf have "updateAllInstances accumulate 1250 (release 2 (?s\<lparr>registeredInstances := [1] @ [3]\<rparr>)) =
      Inr (notified accumulate (1250 - lastUpdate ?s) ([1] @ [3])
             ((release 2 (?s\<lparr>registeredInstances := [1] @ [3]\<rparr>))\<lparr>lastUpdate := 1250\<rparr>),
           map (\<lambda>p. (p, 1250 - lastUpdate ?s)) ([1] @ [3]))"
    by blast
  then have c3: "updateAllInstances accumulate 1250 ?r =
      Inr (three_receivers\<lparr>firstCall := False, lastUpdate := 1250, registeredInstances := [1, 3],
            debug := [1 \<mapsto> False, 3 \<mapsto> False], user := (\<lambda>p. 0)(1 := 250, 3 := 250)\<rparr>,
          [(1, 250), (3, 250)])"
    unfolding rr n2 m2 .
  from k l d r c1 c2 c3 show ?thesis
    by (intro conjI)
qed

section \<open>Debug mode\<close>

text \<open>
  C9. \<^verbatim>\<open>setDebugMode(mode)\<close> sets the debug flag of every registered receiver to
  \<open>mode\<close> and changes nothing else. \<^verbatim>\<open>debugMode()\<close> returns the flag of its own
  receiver, whatever the flags of the others. The flag of a newly constructed receiver
  is false; a receiver constructed after a \<^verbatim>\<open>setDebugMode\<close> call has the flag false
  while the receivers registered before keep \<open>mode\<close>, until the next
  \<^verbatim>\<open>setDebugMode\<close> call sets it along with the others.
\<close>

theorem debug_mode_propagation:
  assumes "registered_live s"
  shows "setDebugMode mode s =
           Inr (s\<lparr>debug := (\<lambda>a. if a \<in> set (registeredInstances s) then Some mode else debug s a)\<rparr>) \<and>
         (\<forall>s'. setDebugMode mode s = Inr s' \<longrightarrow>
            (\<forall>p \<in> set (registeredInstances s). debugMode p s' = Inr mode) \<and>
            (\<forall>p. p \<notin> set (registeredInstances s) \<longrightarrow> debugMode p s' = debugMode p s) \<and>
            (\<forall>this. debug s' this = None \<longrightarrow>
               debugMode this (Updatable this s') = Inr False \<and>
               (\<forall>p \<in> set (registeredInstances s). debugMode p (Updatable this s') = Inr mode) \<and>
               (\<forall>mode'. \<exists>s''. setDebugMode mode' (Updatable this s') = Inr s'' \<and>
                  debugMode this s'' = Inr mode'))) \<and>
         debugMode this (Updatable this s) = Inr False \<and>
         (\<forall>p b. debug s p = Some b \<longrightarrow> debugMode p s = Inr b)"
proof -
  let ?s' = "s\<lparr>debug := (\<lambda>a. if a \<in> set (registeredInstances s) then Some mode else debug s a)\<rparr>"
  have res: "setDebugMode mode s = Inr ?s'"
    using assms by (rule setDebugMode_result)
  have a: "\<forall>p \<in> set (registeredInstances s). debugMode p ?s' = Inr mode"
    by (simp add: debugMode_def)
  have b: "\<forall>p. p \<notin> set (registeredInstances s) \<longrightarrow> debugMode p ?s' = debugMode p s"
    by (simp add: debugMode_def)
  have c: "\<forall>this. debug ?s' this = None \<longrightarrow>
               debugMode this (Updatable this ?s') = Inr False \<and>
               (\<forall>p \<in> set (registeredInstances s). debugMode p (Updatable this ?s') = Inr mode) \<and>
               (\<forall>mode'. \<exists>s''. setDebugMode mode' (Updatable this ?s') = Inr s'' \<and>
                  debugMode this s'' = Inr mode')"
  proof (intro allI impI conjI ballI)
    fix this
    assume fresh: "debug ?s' this = None"
    show "debugMode this (Updatable this ?s') = Inr False"
      by (simp add: debugMode_def Updatable_fields)
    have live': "registered_live ?s'"
      using assms by (auto simp: registered_live_def)
    then have live'': "registered_live (Updatable this ?s')"
      by (rule registered_live_Updatable)
    fix mode'
    show "\<exists>s''. setDebugMode mode' (Updatable this ?s') = Inr s'' \<and> debugMode this s'' = Inr mode'"
      using setDebugMode_result [OF live'', of mode']
      by (simp add: debugMode_def Updatable_fields)
  next
    fix this p
    assume fresh: "debug ?s' this = None" and p: "p \<in> set (registeredInstances s)"
    then have "p \<noteq> this"
      by (auto split: if_splits)
    with p show "debugMode p (Updatable this ?s') = Inr mode"
      by (simp add: debugMode_def Updatable_fields)
  qed
  have d: "debugMode this (Updatable this s) = Inr False"
    by (simp add: debugMode_def Updatable_fields)
  have e: "\<forall>p b. debug s p = Some b \<longrightarrow> debugMode p s = Inr b"
    by (simp add: debugMode_def)
  from res a b c d e show ?thesis
    by simp
qed

theorem debug_mode_propagation_witness:
  "registered_live two_receivers \<and>
   (\<exists>s'. setDebugMode True two_receivers = Inr s' \<and>
      debugMode 1 s' = Inr True \<and> debugMode 2 s' = Inr True \<and>
      debug s' 3 = None \<and>
      debugMode 3 (Updatable 3 s') = Inr False \<and>
      debugMode 1 (Updatable 3 s') = Inr True \<and>
      (\<exists>s''. setDebugMode True (Updatable 3 s') = Inr s'' \<and> debugMode 3 s'' = Inr True)) \<and>
   debugMode 3 (Updatable 3 two_receivers) = Inr False"
proof -
  note l = registered_live_two_receivers
  note inst = debug_mode_propagation [OF l, of True 3]
  let ?s' = "two_receivers\<lparr>debug := (\<lambda>a. if a \<in> set (registeredInstances two_receivers) then Some True else debug two_receivers a)\<rparr>"
  from inst have res: "setDebugMode True two_receivers = Inr ?s'"
    by blast
  have fresh: "debug ?s' 3 = None"
    by (simp add: two_receivers_fields)
  have m: "(1 :: nat) \<in> set (registeredInstances two_receivers)" "(2 :: nat) \<in> set (registeredInstances two_receivers)"
    by (simp_all add: two_receivers_fields)
  from inst res have all: "(\<forall>p \<in> set (registeredInstances two_receivers). debugMode p ?s' = Inr True) \<and>
      (\<forall>this. debug ?s' this = None \<longrightarrow>
               debugMode this (Updatable this ?s') = Inr False \<and>
               (\<forall>p \<in> set (registeredInstances two_receivers). debugMode p (Updatable this ?s') = Inr True) \<and>
               (\<forall>mode'. \<exists>s''. setDebugMode mode' (Updatable this ?s') = Inr s'' \<and>
                  debugMode this s'' = Inr mode'))"
    by blast
  from all m have a: "debugMode 1 ?s' = Inr True" "debugMode 2 ?s' = Inr True"
    by blast+
  from all fresh m have b: "debugMode 3 (Updatable 3 ?s') = Inr False"
    "debugMode 1 (Updatable 3 ?s') = Inr True"
    "\<exists>s''. setDebugMode True (Updatable 3 ?s') = Inr s'' \<and> debugMode 3 s'' = Inr True"
    by blast+
  from inst have c: "debugMode 3 (Updatable 3 two_receivers) = Inr False"
    by blast
  from l res fresh a b c show ?thesis
    by blast
qed

section \<open>What the dispatch calls leave unchanged\<close>

text \<open>
  C10. Provided the receivers' \<^verbatim>\<open>update\<close> functions do not themselves change
  registry state, both dispatch calls leave the registered sequence and every debug flag
  as they were, in every state: apart from what the receivers did to the user state,
  the explicitly-timed call changes nothing at all, and the auto-timed call changes only
  the time cursor and the first-call latch. Both calls return normally where every
  registered reference is the address of a live object.
\<close>

theorem dispatch_frame:
  assumes "keeps_registry upd"
  shows "(\<forall>s' tr. updateAllInstances_delta upd E s = Inr (s', tr) \<longrightarrow> s'\<lparr>user := user s\<rparr> = s) \<and>
         (\<forall>s' tr. updateAllInstances upd now s = Inr (s', tr) \<longrightarrow>
            s'\<lparr>user := user s\<rparr> = s\<lparr>firstCall := False, lastUpdate := now\<rparr>) \<and>
         (registered_live s \<longrightarrow>
            (\<exists>s' tr. updateAllInstances_delta upd E s = Inr (s', tr)) \<and>
            (\<exists>s' tr. updateAllInstances upd now s = Inr (s', tr)))"
proof (intro conjI allI impI)
  fix s' tr
  assume "updateAllInstances_delta upd E s = Inr (s', tr)"
  then have "update_loop upd E 0 (Size (registeredInstances s)) (s, []) = Inr (s', tr)"
    by (simp add: updateAllInstances_delta_def)
  from update_loop_fields [OF assms this] show "s'\<lparr>user := user s\<rparr> = s"
    by (intro world.equality) simp_all
next
  fix s' tr
  assume r: "updateAllInstances upd now s = Inr (s', tr)"
  show "s'\<lparr>user := user s\<rparr> = s\<lparr>firstCall := False, lastUpdate := now\<rparr>"
  proof (cases "firstCall s")
    case True
    with r show ?thesis
      by (auto simp: auto_dispatch_first)
  next
    case False
    with r have "update_loop upd (now - lastUpdate s) 0 (Size (registeredInstances s))
        (s\<lparr>lastUpdate := now\<rparr>, []) = Inr (s', tr)"
      by (simp add: updateAllInstances_def)
    from update_loop_fields [OF assms this] False show ?thesis
      by (intro world.equality) simp_all
  qed
next
  assume "registered_live s"
  then show "\<exists>s' tr. updateAllInstances_delta upd E s = Inr (s', tr)"
    using assms by (simp add: explicit_dispatch_result)
next
  assume live: "registered_live s"
  show "\<exists>s' tr. updateAllInstances upd now s = Inr (s', tr)"
  proof (cases "firstCall s")
    case True
    then show ?thesis by (simp add: auto_dispatch_first)
  next
    case False
    from auto_dispatch_later [OF assms live False, of now] show ?thesis
      by simp
  qed
qed

theorem dispatch_frame_witness:
  "keeps_registry (accumulate :: (32, addr \<Rightarrow> 32 word) updater) \<and>
   registered_live two_receivers \<and>
   (\<exists>s' tr. updateAllInstances_delta accumulate 50 two_receivers = Inr (s', tr) \<and>
      s'\<lparr>user := user two_receivers\<rparr> = two_receivers \<and> user s' 1 = 50) \<and>
   (\<exists>s' tr. updateAllInstances accumulate 1000 two_receivers = Inr (s', tr) \<and>
      s'\<lparr>user := user two_receivers\<rparr> = two_receivers\<lparr>firstCall := False, lastUpdate := 1000\<rparr>)"
proof -
  note k = keeps_registry_accumulate [where ?'a = 32]
  note l = registered_live_two_receivers
  note inst = dispatch_frame [OF k, of 50 two_receivers 1000]
  have e: "updateAllInstances_delta accumulate 50 two_receivers =
      Inr (notified accumulate 50 (registeredInstances two_receivers) two_receivers,
           map (\<lambda>p. (p, 50)) (registeredInstances two_receivers))"
    using k l by (rule explicit_dispatch_result)
  have u: "user (notified accumulate 50 (registeredInstances two_receivers) two_receivers) 1 = 50"
    by (simp add: notified_def accumulate_def two_receivers_fields)
  from inst e u have "\<exists>s' tr. updateAllInstances_delta accumulate 50 two_receivers = Inr (s', tr) \<and>
      s'\<lparr>user := user two_receivers\<rparr> = two_receivers \<and> user s' 1 = 50"
    by blast
  moreover from inst l have "\<exists>s' tr. updateAllInstances accumulate 1000 two_receivers = Inr (s', tr) \<and>
      s'\<lparr>user := user two_receivers\<rparr> = two_receivers\<lparr>firstCall := False, lastUpdate := 1000\<rparr>"
    by blast
  ultimately show ?thesis using k l by blast
qed

end
